theory Spec2Isabelle
  imports Main
begin

section \<open>Python strings\<close>

text \<open>
  A Python \<open>str\<close> is a sequence of Unicode code points, so a string is modelled as the
  list of its code points. ASCII text is written through \<open>ascii\<close>; the two headwords
  of the sample line are U+611B and U+7231.
\<close>

type_synonym pystr = "nat list"

definition ascii :: "string \<Rightarrow> pystr" where
  "ascii s = map of_char s"

definition SLASH :: nat where "SLASH = 47"          \<comment> \<open>\<open>'/'\<close>\<close>
definition HASH :: nat where "HASH = 35"            \<comment> \<open>\<open>'#'\<close>\<close>
definition LBRACKET :: nat where "LBRACKET = 91"    \<comment> \<open>\<open>'['\<close>\<close>
definition RBRACKET :: nat where "RBRACKET = 93"    \<comment> \<open>\<open>']'\<close>\<close>
definition SEMICOLON :: nat where "SEMICOLON = 59"  \<comment> \<open>\<open>';'\<close>\<close>

text \<open>
  The code points that \<open>str.strip()\<close> and \<open>str.split()\<close> (without argument) treat as
  whitespace: those for which \<open>str.isspace\<close> holds.
\<close>

definition isspace :: "nat \<Rightarrow> bool" where
  "isspace c \<longleftrightarrow>
     (9 \<le> c \<and> c \<le> 13) \<or> (28 \<le> c \<and> c \<le> 32) \<or> c = 133 \<or> c = 160 \<or> c = 5760 \<or>
     (8192 \<le> c \<and> c \<le> 8202) \<or> c = 8232 \<or> c = 8233 \<or> c = 8239 \<or> c = 8287 \<or> c = 12288"

text \<open>\<open>s.startswith(p)\<close>\<close>

definition startswith :: "pystr \<Rightarrow> pystr \<Rightarrow> bool" where
  "startswith s p \<longleftrightarrow> take (length p) s = p"

text \<open>\<open>s.strip()\<close>: whitespace removed at both ends.\<close>

definition strip :: "pystr \<Rightarrow> pystr" where
  "strip s = rev (dropWhile isspace (rev (dropWhile isspace s)))"

text \<open>\<open>s.rstrip(chars)\<close>: every trailing character that occurs in \<open>chars\<close> is removed.\<close>

definition rstrip_chars :: "pystr \<Rightarrow> pystr \<Rightarrow> pystr" where
  "rstrip_chars s chars = rev (dropWhile (\<lambda>c. c \<in> set chars) (rev s))"

text \<open>
  Splitting at every element that satisfies \<open>P\<close>: \<open>n\<close> separators give \<open>n + 1\<close> pieces,
  empty pieces included.
\<close>

fun split_when :: "('a \<Rightarrow> bool) \<Rightarrow> 'a list \<Rightarrow> 'a list list" where
  "split_when P [] = [[]]"
| "split_when P (x # xs) =
     (if P x then [] # split_when P xs
      else (case split_when P xs of [] \<Rightarrow> [[x]] | p # ps \<Rightarrow> (x # p) # ps))"

text \<open>\<open>s.split(sep)\<close> for a separator of one character.\<close>

definition split_sep :: "pystr \<Rightarrow> nat \<Rightarrow> pystr list" where
  "split_sep s sep = split_when (\<lambda>c. c = sep) s"

text \<open>\<open>s.split(sep, maxsplit=1)\<close> for a separator of one character: split at the first one.\<close>

definition split_sep1 :: "pystr \<Rightarrow> nat \<Rightarrow> pystr list" where
  "split_sep1 s sep =
     (if sep \<in> set s
      then [takeWhile (\<lambda>c. c \<noteq> sep) s, tl (dropWhile (\<lambda>c. c \<noteq> sep) s)]
      else [s])"

text \<open>\<open>s.split()\<close>: split at runs of whitespace, no empty piece.\<close>

definition split_ws :: "pystr \<Rightarrow> pystr list" where
  "split_ws s = filter (\<lambda>w. w \<noteq> []) (split_when isspace s)"

section \<open>Errors\<close>

text \<open>
  Every exception of the source is a \<open>ValueError\<close> or an \<open>IndexError\<close>; the constructors
  keep apart where it is raised. \<open>NotEnoughValues n\<close> and \<open>TooManyValues\<close> are the two
  failures of unpacking a list into two variables.
\<close>

datatype error =
    NotEnoughValues nat
  | TooManyValues
  | BadTimestamp
  | DatetimeNotSet
  | IndexError

text \<open>\<open>a, b = xs\<close>\<close>

fun unpack2 :: "'a list \<Rightarrow> error + ('a \<times> 'a)" where
  "unpack2 [] = Inl (NotEnoughValues 0)"
| "unpack2 [a] = Inl (NotEnoughValues 1)"
| "unpack2 [a, b] = Inr (a, b)"
| "unpack2 (a # b # c # xs) = Inl TooManyValues"

section \<open>Entries and the store\<close>

record entry =
  traditional :: pystr
  simplified :: pystr
  pinyin :: pystr
  definitions :: "pystr list"

text \<open>
  The attributes of a \<open>CcCedict\<close> object. A \<open>datetime\<close> is the number of microseconds
  since a fixed instant.
\<close>

record store =
  entries :: "entry list"
  simplified_to_index :: "pystr \<rightharpoonup> nat"
  traditional_to_index :: "pystr \<rightharpoonup> nat"
  data_datetime :: "int option"

section \<open>The line parser\<close>

text \<open>The data-line part of \<open>_parse_line\<close>: everything after the comment test.\<close>

definition parse_entry :: "pystr \<Rightarrow> error + entry" where
  "parse_entry line0 =
     (let line = strip line0;
          line = rstrip_chars line [SLASH]
      in (case unpack2 (split_sep1 line SLASH) of
            Inl err \<Rightarrow> Inl err
          | Inr (chinese0, english) \<Rightarrow>
             (let chinese = strip chinese0
              in (case unpack2 (split_sep chinese LBRACKET) of
                    Inl err \<Rightarrow> Inl err
                  | Inr (traditional_and_simplified0, pinyin0) \<Rightarrow>
                     (let traditional_and_simplified = strip traditional_and_simplified0
                      in (case unpack2 (split_ws traditional_and_simplified) of
                            Inl err \<Rightarrow> Inl err
                          | Inr (trad, simp) \<Rightarrow>
                             (let pinyin1 = butlast pinyin0;
                                  senses = split_sep english SLASH;
                                  glosses = map (\<lambda>sense. split_sep sense SEMICOLON) senses;
                                  defs = concat glosses
                              in Inr \<lparr>traditional = trad, simplified = simp,
                                      pinyin = pinyin1, definitions = defs\<rparr>)))))))"

definition DATE_TAG :: pystr where
  "DATE_TAG = ascii ''#! date=''"

text \<open>
  \<open>_parse_line\<close>. \<open>datetime.strptime\<close> with the format of the source is the parameter
  \<open>strptime\<close>, \<open>None\<close> when it raises. The result is the returned entry (\<open>None\<close> for a
  skipped line) and the object after the call.
\<close>

definition parse_line ::
  "(pystr \<Rightarrow> int option) \<Rightarrow> store \<Rightarrow> pystr \<Rightarrow> error + (entry option \<times> store)" where
  "parse_line strptime self line =
     (if startswith line [HASH] then
        (if startswith line DATE_TAG then
           (case strptime (strip (drop (length DATE_TAG) line)) of
              None \<Rightarrow> Inl BadTimestamp
            | Some t \<Rightarrow> Inr (None, self\<lparr>data_datetime := Some t\<rparr>))
         else Inr (None, self))
      else
        (case parse_entry line of
           Inl err \<Rightarrow> Inl err
         | Inr e \<Rightarrow> Inr (Some e, self)))"

text \<open>
  The values the local variables of \<open>_parse_line\<close> take on a data line: \<open>line\<close> after
  the two strips, \<open>chinese\<close> and \<open>english\<close> after the first split, the headword segment
  and the pinyin segment after the split at the bracket.
\<close>

definition prepared :: "pystr \<Rightarrow> pystr" where
  "prepared line = rstrip_chars (strip line) [SLASH]"

definition chinese_part :: "pystr \<Rightarrow> pystr" where
  "chinese_part line = strip (takeWhile (\<lambda>c. c \<noteq> SLASH) (prepared line))"

definition english_part :: "pystr \<Rightarrow> pystr" where
  "english_part line = tl (dropWhile (\<lambda>c. c \<noteq> SLASH) (prepared line))"

definition headwords :: "pystr \<Rightarrow> pystr" where
  "headwords line = strip (takeWhile (\<lambda>c. c \<noteq> LBRACKET) (chinese_part line))"

definition pinyin_segment :: "pystr \<Rightarrow> pystr" where
  "pinyin_segment line = tl (dropWhile (\<lambda>c. c \<noteq> LBRACKET) (chinese_part line))"

text \<open>
  What \<open>_parse_line\<close> returns on a data line, in terms of these values: the three
  unpackings succeed exactly on a \<open>well_formed\<close> line, and the entry returned then is
  \<open>entry_of\<close> (lemma \<open>parse_entry_Inr_iff\<close> below).
\<close>

definition entry_of :: "pystr \<Rightarrow> entry" where
  "entry_of line =
     \<lparr>traditional = split_ws (headwords line) ! 0,
      simplified = split_ws (headwords line) ! 1,
      pinyin = butlast (pinyin_segment line),
      definitions = concat (map (\<lambda>sense. split_sep sense SEMICOLON) (split_sep (english_part line) SLASH))\<rparr>"

definition well_formed :: "pystr \<Rightarrow> bool" where
  "well_formed line \<longleftrightarrow>
     SLASH \<in> set (prepared line) \<and>
     length (split_sep (chinese_part line) LBRACKET) = 2 \<and>
     length (split_ws (headwords line)) = 2"

section \<open>The dictionary\<close>

text \<open>
  The loop of \<open>_parse_file\<close>, with the object and the counter \<open>i\<close> as loop state. An
  exception of \<open>_parse_line\<close> leaves the loop.
\<close>

fun parse_loop ::
  "(pystr \<Rightarrow> int option) \<Rightarrow> pystr list \<Rightarrow> store \<Rightarrow> nat \<Rightarrow> error + store" where
  "parse_loop strptime [] self i = Inr self"
| "parse_loop strptime (line # file) self i =
     (case parse_line strptime self line of
        Inl err \<Rightarrow> Inl err
      | Inr (None, self') \<Rightarrow> parse_loop strptime file self' i
      | Inr (Some e, self') \<Rightarrow>
          parse_loop strptime file
            (self'\<lparr>entries := entries self' @ [e],
                   simplified_to_index := (simplified_to_index self')(simplified e \<mapsto> i),
                   traditional_to_index := (traditional_to_index self')(traditional e \<mapsto> i)\<rparr>)
            (i + 1))"

definition parse_file :: "(pystr \<Rightarrow> int option) \<Rightarrow> store \<Rightarrow> pystr list \<Rightarrow> error + store" where
  "parse_file strptime self file =
     parse_loop strptime file
       (self\<lparr>entries := [], simplified_to_index := Map.empty,
              traditional_to_index := Map.empty\<rparr>) 0"

text \<open>
  \<open>__init__\<close> on the lines of the data file. When \<open>_parse_file\<close> raises, the constructor
  raises and there is no object: the result is the error alone.
\<close>

definition fresh :: store where
  "fresh = \<lparr>entries = [], simplified_to_index = Map.empty, traditional_to_index = Map.empty,
            data_datetime = None\<rparr>"

definition init :: "(pystr \<Rightarrow> int option) \<Rightarrow> pystr list \<Rightarrow> error + store" where
  "init strptime file = parse_file strptime fresh file"

text \<open>
  A \<open>strptime\<close> that accepts nothing, for the examples: none of their lines has the date
  tag, so it is never called.
\<close>

definition strptime_fail :: "pystr \<Rightarrow> int option" where
  "strptime_fail s = None"

text \<open>\<open>xs[i]\<close> for an index that is not negative.\<close>

definition getitem :: "'a list \<Rightarrow> nat \<Rightarrow> error + 'a" where
  "getitem xs i = (if i < length xs then Inr (xs ! i) else Inl IndexError)"

definition get_entry :: "store \<Rightarrow> pystr \<Rightarrow> error + entry option" where
  "get_entry self chinese =
     (case simplified_to_index self chinese of
        Some i \<Rightarrow> map_sum id Some (getitem (entries self) i)
      | None \<Rightarrow>
         (case traditional_to_index self chinese of
            Some i \<Rightarrow> map_sum id Some (getitem (entries self) i)
          | None \<Rightarrow> Inr None))"

definition get_entries :: "store \<Rightarrow> entry list" where
  "get_entries self = entries self"

definition get_data_datetime :: "store \<Rightarrow> int option" where
  "get_data_datetime self = data_datetime self"

text \<open>
  \<open>get_data_days_old\<close>, with the clock \<open>datetime.utcnow()\<close> as parameter. The \<open>days\<close> of
  a \<open>timedelta\<close> is the floor of the difference divided by one day.
\<close>

definition get_data_days_old :: "int \<Rightarrow> store \<Rightarrow> error + int" where
  "get_data_days_old utcnow self =
     (case data_datetime self of
        None \<Rightarrow> Inl DatetimeNotSet
      | Some d \<Rightarrow> Inr ((utcnow - d) div 86400000000))"

text \<open>
  The invariant of the loop for one index: a key is in the index exactly when some entry
  has it as its form \<open>f\<close>, and the position stored is that of the last such entry.
\<close>

definition index_last :: "(entry \<Rightarrow> pystr) \<Rightarrow> entry list \<Rightarrow> (pystr \<rightharpoonup> nat) \<Rightarrow> bool" where
  "index_last f es m \<longleftrightarrow>
     (\<forall>k. case m k of
            None \<Rightarrow> filter (\<lambda>e. f e = k) es = []
          | Some j \<Rightarrow> j < length es \<and> filter (\<lambda>e. f e = k) es \<noteq> [] \<and>
                      es ! j = last (filter (\<lambda>e. f e = k) es))"

section \<open>Evaluation and basic facts\<close>

lemma ascii_simps [simp]:
  "ascii [] = []"
  "ascii (c # cs) = of_char c # ascii cs"
  by (simp_all add: ascii_def)

lemmas py_eval =
  parse_entry_def strip_def rstrip_chars_def split_sep1_def split_sep_def split_ws_def
  isspace_def SLASH_def HASH_def LBRACKET_def RBRACKET_def SEMICOLON_def startswith_def

section \<open>Splitting and unpacking\<close>

lemma split_when_nonempty: "split_when P s \<noteq> []"
  by (induction s) (auto split: list.splits)

lemma split_when_unfold:
  "split_when P s =
     takeWhile (\<lambda>x. \<not> P x) s #
       (case dropWhile (\<lambda>x. \<not> P x) s of [] \<Rightarrow> [] | x # r \<Rightarrow> split_when P r)"
proof (induction s)
  case Nil
  show ?case by simp
next
  case (Cons a s)
  show ?case
  proof (cases "P a")
    case True
    then show ?thesis by simp
  next
    case False
    then show ?thesis using Cons split_when_nonempty [of P s]
      by (cases "split_when P s") auto
  qed
qed

lemma split_sep_pair:
  assumes "split_sep s c = [a, b]"
  shows "a = takeWhile (\<lambda>x. x \<noteq> c) s" and "b = tl (dropWhile (\<lambda>x. x \<noteq> c) s)"
proof -
  have u: "split_sep s c = takeWhile (\<lambda>x. x \<noteq> c) s #
       (case dropWhile (\<lambda>x. x \<noteq> c) s of [] \<Rightarrow> [] | x # r \<Rightarrow> split_sep r c)"
    unfolding split_sep_def by (rule split_when_unfold)
  from assms u show "a = takeWhile (\<lambda>x. x \<noteq> c) s" by simp
  from assms u have r: "(case dropWhile (\<lambda>x. x \<noteq> c) s of [] \<Rightarrow> [] | x # r \<Rightarrow> split_sep r c) = [b]"
    by simp
  then obtain x r where d: "dropWhile (\<lambda>x. x \<noteq> c) s = x # r" and sr: "split_sep r c = [b]"
    by (cases "dropWhile (\<lambda>x. x \<noteq> c) s") auto
  have "split_sep r c = takeWhile (\<lambda>x. x \<noteq> c) r #
       (case dropWhile (\<lambda>x. x \<noteq> c) r of [] \<Rightarrow> [] | x # r \<Rightarrow> split_sep r c)"
    unfolding split_sep_def by (rule split_when_unfold)
  with sr have "takeWhile (\<lambda>x. x \<noteq> c) r = b" and e: "(case dropWhile (\<lambda>x. x \<noteq> c) r of [] \<Rightarrow> [] | x # r \<Rightarrow> split_sep r c) = []"
    by simp_all
  from e have "dropWhile (\<lambda>x. x \<noteq> c) r = []"
    by (cases "dropWhile (\<lambda>x. x \<noteq> c) r") (auto simp: split_sep_def split_when_nonempty)
  then have "takeWhile (\<lambda>x. x \<noteq> c) r = r"
    by (metis takeWhile_dropWhile_id append_Nil2)
  with \<open>takeWhile (\<lambda>x. x \<noteq> c) r = b\<close> d show "b = tl (dropWhile (\<lambda>x. x \<noteq> c) s)" by simp
qed

lemma unpack2_Inl_iff: "(\<exists>e. unpack2 xs = Inl e) \<longleftrightarrow> length xs \<noteq> 2"
  by (cases xs rule: unpack2.cases) auto

section \<open>The result of parsing a data line\<close>

lemma length2E: "length xs = 2 \<Longrightarrow> xs = [xs ! 0, xs ! 1]"
  by (cases xs rule: unpack2.cases) auto

lemma parse_entry_well_formed:
  assumes "well_formed line"
  shows "parse_entry line = Inr (entry_of line)"
proof -
  from assms have sl: "SLASH \<in> set (prepared line)"
    and br: "length (split_sep (chinese_part line) LBRACKET) = 2"
    and ws: "length (split_ws (headwords line)) = 2"
    by (simp_all add: well_formed_def)
  have s1: "split_sep1 (rstrip_chars (strip line) [SLASH]) SLASH =
      [takeWhile (\<lambda>c. c \<noteq> SLASH) (prepared line), english_part line]"
    using sl by (simp add: split_sep1_def prepared_def english_part_def)
  obtain a b where ab: "split_sep (chinese_part line) LBRACKET = [a, b]"
    using length2E [OF br] by blast
  have a: "strip a = headwords line" and b: "b = pinyin_segment line"
    using split_sep_pair [OF ab] by (simp_all add: headwords_def pinyin_segment_def)
  obtain t s where ts: "split_ws (headwords line) = [t, s]"
    using length2E [OF ws] by blast
  show ?thesis
    unfolding parse_entry_def Let_def s1
    by (simp add: chinese_part_def [symmetric] ab a b ts entry_of_def)
qed

lemma parse_entry_ill_formed:
  assumes "\<not> well_formed line"
  shows "\<exists>err. parse_entry line = Inl err"
proof (cases "SLASH \<in> set (prepared line)")
  case False
  then show ?thesis
    by (simp add: parse_entry_def split_sep1_def prepared_def)
next
  case sl: True
  have s1: "split_sep1 (rstrip_chars (strip line) [SLASH]) SLASH =
      [takeWhile (\<lambda>c. c \<noteq> SLASH) (prepared line), english_part line]"
    using sl by (simp add: split_sep1_def prepared_def english_part_def)
  show ?thesis
  proof (cases "length (split_sep (chinese_part line) LBRACKET) = 2")
    case False
    then obtain err where "unpack2 (split_sep (chinese_part line) LBRACKET) = Inl err"
      using unpack2_Inl_iff by blast
    then show ?thesis
      unfolding parse_entry_def Let_def s1 by (simp add: chinese_part_def [symmetric])
  next
    case br: True
    obtain a b where ab: "split_sep (chinese_part line) LBRACKET = [a, b]"
      using length2E [OF br] by blast
    have a: "strip a = headwords line"
      using split_sep_pair [OF ab] by (simp_all add: headwords_def)
    from assms sl br have "length (split_ws (headwords line)) \<noteq> 2"
      by (simp add: well_formed_def)
    then obtain err where "unpack2 (split_ws (headwords line)) = Inl err"
      using unpack2_Inl_iff by blast
    then show ?thesis
      unfolding parse_entry_def Let_def s1 by (simp add: chinese_part_def [symmetric] ab a)
  qed
qed

lemma parse_entry_Inr_iff:
  "parse_entry line = Inr e \<longleftrightarrow> well_formed line \<and> e = entry_of line"
  using parse_entry_well_formed [of line] parse_entry_ill_formed [of line]
  by (cases "well_formed line") auto

section \<open>Facts about the line parser and the loop\<close>

lemma parse_line_data:
  "\<not> startswith line [HASH] \<Longrightarrow>
   parse_line sp self line =
     (case parse_entry line of Inl err \<Rightarrow> Inl err | Inr e \<Rightarrow> Inr (Some e, self))"
  by (simp add: parse_line_def)

lemma parse_line_Some:
  assumes "parse_line sp self line = Inr (Some e, self')"
  shows "\<not> startswith line [HASH]" and "parse_entry line = Inr e" and "self' = self"
  using assms by (auto simp: parse_line_def split: if_splits option.splits sum.splits)

lemma parse_line_keeps:
  assumes "parse_line sp self line = Inr (r, self')"
  shows "entries self' = entries self"
    and "simplified_to_index self' = simplified_to_index self"
    and "traditional_to_index self' = traditional_to_index self"
  using assms by (auto simp: parse_line_def split: if_splits option.splits sum.splits)

lemma parse_loop_error:
  assumes "line \<in> set lns" and "\<And>self. \<exists>err. parse_line sp self line = Inl err"
  shows "\<exists>err. parse_loop sp lns self i = Inl err"
  using assms(1)
proof (induction lns arbitrary: self i)
  case Nil
  then show ?case by simp
next
  case (Cons l lns)
  show ?case
  proof (cases "parse_line sp self l")
    case (Inl err)
    then show ?thesis by simp
  next
    case (Inr r)
    obtain res self' where r: "r = (res, self')" by (cases r)
    from Inr r assms(2) [of self] have "l \<noteq> line" by auto
    with Cons.prems have mem: "line \<in> set lns" by simp
    show ?thesis
      using Inr r Cons.IH [OF mem] by (cases res) simp_all
  qed
qed

lemma set_strip: "set (strip s) \<subseteq> set s"
proof -
  have "set (strip s) \<subseteq> set (dropWhile isspace s)"
    unfolding strip_def using set_dropWhileD [of _ isspace "rev (dropWhile isspace s)"] by auto
  also have "\<dots> \<subseteq> set s" using set_dropWhileD [of _ isspace s] by auto
  finally show ?thesis .
qed

lemma set_prepared: "set (prepared line) \<subseteq> set line"
proof -
  have "set (prepared line) \<subseteq> set (strip line)"
    unfolding prepared_def rstrip_chars_def
    using set_dropWhileD [of _ "\<lambda>c. c \<in> set [SLASH]" "rev (strip line)"] by auto
  with set_strip [of line] show ?thesis by blast
qed

lemma unpack2_error: "unpack2 xs = Inl err \<Longrightarrow> err = TooManyValues \<or> (\<exists>n. err = NotEnoughValues n)"
  by (cases xs rule: unpack2.cases) auto

lemma parse_entry_error:
  assumes "parse_entry line = Inl err"
  shows "err = TooManyValues \<or> (\<exists>n. err = NotEnoughValues n)"
  using assms unfolding parse_entry_def Let_def
  by (auto split: sum.splits prod.splits dest: unpack2_error)

lemma split_at_first:
  assumes "c \<in> set s"
  shows "s = takeWhile (\<lambda>x. x \<noteq> c) s @ c # tl (dropWhile (\<lambda>x. x \<noteq> c) s)"
proof -
  from assms have ne: "dropWhile (\<lambda>x. x \<noteq> c) s \<noteq> []"
    by (auto simp: dropWhile_eq_Nil_conv)
  then have "hd (dropWhile (\<lambda>x. x \<noteq> c) s) = c"
    using hd_dropWhile [of "\<lambda>x. x \<noteq> c" s] by simp
  with ne have "dropWhile (\<lambda>x. x \<noteq> c) s = c # tl (dropWhile (\<lambda>x. x \<noteq> c) s)"
    by (cases "dropWhile (\<lambda>x. x \<noteq> c) s") auto
  then show ?thesis
    using takeWhile_dropWhile_id [of "\<lambda>x. x \<noteq> c" s] by simp
qed

lemma strip_blank:
  assumes "\<forall>c\<in>set line. isspace c"
  shows "strip line = []"
proof -
  from assms have d: "dropWhile isspace line = []" by (induction line) simp_all
  show ?thesis unfolding strip_def d by simp
qed

section \<open>The indexes after the loop\<close>

lemma index_last_empty: "index_last f [] Map.empty"
  by (simp add: index_last_def)

lemma index_last_snoc:
  assumes "index_last f es m"
  shows "index_last f (es @ [e]) (m(f e \<mapsto> length es))"
  unfolding index_last_def
proof
  fix k
  from assms have k: "case m k of
            None \<Rightarrow> filter (\<lambda>e. f e = k) es = []
          | Some j \<Rightarrow> j < length es \<and> filter (\<lambda>e. f e = k) es \<noteq> [] \<and>
                      es ! j = last (filter (\<lambda>e. f e = k) es)"
    by (simp add: index_last_def)
  show "case (m(f e \<mapsto> length es)) k of
            None \<Rightarrow> filter (\<lambda>e. f e = k) (es @ [e]) = []
          | Some j \<Rightarrow> j < length (es @ [e]) \<and> filter (\<lambda>e. f e = k) (es @ [e]) \<noteq> [] \<and>
                      (es @ [e]) ! j = last (filter (\<lambda>e. f e = k) (es @ [e]))"
  proof (cases "f e = k")
    case True
    then show ?thesis by simp
  next
    case False
    with k show ?thesis by (auto simp: nth_append split: option.splits)
  qed
qed

lemma parse_loop_index:
  assumes "parse_loop sp lns self i = Inr self'"
    and "i = length (entries self)"
    and "index_last simplified (entries self) (simplified_to_index self)"
    and "index_last traditional (entries self) (traditional_to_index self)"
  shows "index_last simplified (entries self') (simplified_to_index self') \<and>
         index_last traditional (entries self') (traditional_to_index self')"
  using assms
proof (induction lns arbitrary: self i)
  case Nil
  then show ?case by simp
next
  case (Cons l lns)
  show ?case
  proof (cases "parse_line sp self l")
    case (Inl err)
    with Cons.prems(1) show ?thesis by simp
  next
    case (Inr r)
    obtain res s1 where r: "r = (res, s1)" by (cases r)
    note keep = parse_line_keeps [OF Inr [unfolded r]]
    show ?thesis
    proof (cases res)
      case None
      with Inr r Cons.prems(1) have "parse_loop sp lns s1 i = Inr self'" by simp
      then show ?thesis
        using Cons.prems(2-4) keep by (intro Cons.IH [of s1 i]) simp_all
    next
      case (Some e)
      let ?s2 = "s1\<lparr>entries := entries s1 @ [e],
                   simplified_to_index := (simplified_to_index s1)(simplified e \<mapsto> i),
                   traditional_to_index := (traditional_to_index s1)(traditional e \<mapsto> i)\<rparr>"
      from Some Inr r Cons.prems(1) have "parse_loop sp lns ?s2 (i + 1) = Inr self'" by simp
      moreover have "i + 1 = length (entries ?s2)"
        using Cons.prems(2) keep by simp
      moreover have "index_last simplified (entries ?s2) (simplified_to_index ?s2)"
        using index_last_snoc [OF Cons.prems(3), of e] Cons.prems(2) keep by simp
      moreover have "index_last traditional (entries ?s2) (traditional_to_index ?s2)"
        using index_last_snoc [OF Cons.prems(4), of e] Cons.prems(2) keep by simp
      ultimately show ?thesis by (rule Cons.IH)
    qed
  qed
qed

lemma init_index:
  assumes "init sp lns = Inr self"
  shows "index_last simplified (entries self) (simplified_to_index self)"
    and "index_last traditional (entries self) (traditional_to_index self)"
  using parse_loop_index [OF assms [unfolded init_def parse_file_def]]
  by (simp_all add: index_last_empty)

section \<open>The timestamp after the loop\<close>

lemma parse_line_no_date:
  assumes "\<not> startswith line DATE_TAG" and "parse_line sp self line = Inr (r, self')"
  shows "data_datetime self' = data_datetime self"
  using assms by (auto simp: parse_line_def split: if_splits sum.splits)

lemma parse_loop_no_date:
  assumes "\<forall>line\<in>set lns. \<not> startswith line DATE_TAG"
    and "parse_loop sp lns self i = Inr self'"
  shows "data_datetime self' = data_datetime self"
  using assms
proof (induction lns arbitrary: self i)
  case Nil
  then show ?case by simp
next
  case (Cons l lns)
  from Cons.prems(1) have l: "\<not> startswith l DATE_TAG"
    and rest: "\<forall>line\<in>set lns. \<not> startswith line DATE_TAG" by simp_all
  show ?case
  proof (cases "parse_line sp self l")
    case (Inl err)
    with Cons.prems(2) show ?thesis by simp
  next
    case (Inr r)
    obtain res s1 where r: "r = (res, s1)" by (cases r)
    have d: "data_datetime s1 = data_datetime self"
      using parse_line_no_date [OF l Inr [unfolded r]] .
    show ?thesis
    proof (cases res)
      case None
      with Inr r Cons.prems(2) have "parse_loop sp lns s1 i = Inr self'" by simp
      from Cons.IH [OF rest this] d show ?thesis by simp
    next
      case (Some e)
      with Inr r Cons.prems(2) have "parse_loop sp lns
            (s1\<lparr>entries := entries s1 @ [e],
                   simplified_to_index := (simplified_to_index s1)(simplified e \<mapsto> i),
                   traditional_to_index := (traditional_to_index s1)(traditional e \<mapsto> i)\<rparr>)
            (i + 1) = Inr self'" by simp
      from Cons.IH [OF rest this] d show ?thesis by simp
    qed
  qed
qed

section \<open>Stripping the line\<close>

lemma last_dropWhile: "dropWhile P xs \<noteq> [] \<Longrightarrow> last (dropWhile P xs) = last xs"
  by (induction xs) (auto split: if_splits)

lemma strip_append_ws:
  assumes "\<forall>c\<in>set w. isspace c"
  shows "strip (x @ w) = strip x"
proof (cases "\<forall>c\<in>set x. isspace c")
  case True
  with assms have "\<forall>c\<in>set (x @ w). isspace c" by auto
  then have "strip (x @ w) = []" by (rule strip_blank)
  moreover from True have "strip x = []" by (rule strip_blank)
  ultimately show ?thesis by simp
next
  case False
  then obtain c where "c \<in> set x" "\<not> isspace c" by blast
  then have "dropWhile isspace (x @ w) = dropWhile isspace x @ w"
    by (rule dropWhile_append1)
  moreover have "dropWhile isspace (rev w @ rev (dropWhile isspace x)) =
      dropWhile isspace (rev (dropWhile isspace x))"
    using assms by (intro dropWhile_append2) simp
  ultimately show ?thesis by (simp add: strip_def)
qed

lemma strip_no_trailing:
  assumes "x = [] \<or> \<not> isspace (last x)"
  shows "strip x = dropWhile isspace x"
proof (cases "dropWhile isspace x = []")
  case True
  show ?thesis unfolding strip_def True by simp
next
  case False
  then have x: "x \<noteq> []" by auto
  from False have "last (dropWhile isspace x) = last x" by (rule last_dropWhile)
  with assms x have "\<not> isspace (hd (rev (dropWhile isspace x)))"
    using False by (simp add: hd_rev)
  with False have "dropWhile isspace (rev (dropWhile isspace x)) = rev (dropWhile isspace x)"
    by (cases "rev (dropWhile isspace x)") auto
  then show ?thesis by (simp add: strip_def)
qed

lemma rstrip_chars_replicate:
  "rstrip_chars (y @ replicate n SLASH) [SLASH] = rstrip_chars y [SLASH]"
proof -
  have "dropWhile (\<lambda>c. c \<in> set [SLASH]) (replicate n SLASH @ rev y) =
      dropWhile (\<lambda>c. c \<in> set [SLASH]) (rev y)"
    by (intro dropWhile_append2) simp
  then show ?thesis by (simp add: rstrip_chars_def)
qed

lemma not_isspace_SLASH: "\<not> isspace SLASH"
  by (simp add: isspace_def SLASH_def)

lemma prepared_trailing:
  assumes "s = [] \<or> \<not> isspace (last s)" and "\<forall>c\<in>set w. isspace c"
  shows "prepared (s @ replicate n SLASH @ w) = prepared s"
proof -
  have nt: "s @ replicate n SLASH = [] \<or> \<not> isspace (last (s @ replicate n SLASH))"
    using assms(1) not_isspace_SLASH by (cases n) auto
  have d: "dropWhile isspace (s @ replicate n SLASH) = dropWhile isspace s @ replicate n SLASH"
  proof (cases "s = []")
    case True
    then show ?thesis using not_isspace_SLASH by (cases n) auto
  next
    case False
    with assms(1) have "last s \<in> set s" "\<not> isspace (last s)" by auto
    then show ?thesis by (rule dropWhile_append1)
  qed
  have "strip (s @ replicate n SLASH @ w) = strip ((s @ replicate n SLASH) @ w)" by simp
  also have "\<dots> = strip (s @ replicate n SLASH)" using assms(2) by (rule strip_append_ws)
  also have "\<dots> = dropWhile isspace s @ replicate n SLASH"
    using strip_no_trailing [OF nt] d by simp
  finally have "prepared (s @ replicate n SLASH @ w) = rstrip_chars (dropWhile isspace s) [SLASH]"
    by (simp add: prepared_def rstrip_chars_replicate)
  also have "\<dots> = prepared s"
    using strip_no_trailing [OF assms(1)] by (simp add: prepared_def)
  finally show ?thesis .
qed

lemma parse_entry_prepared:
  assumes "prepared a = prepared b"
  shows "parse_entry a = parse_entry b"
  using assms unfolding parse_entry_def Let_def prepared_def by simp

lemma prepared_no_trailing_slash: "prepared s = [] \<or> last (prepared s) \<noteq> SLASH"
proof (cases "prepared s = []")
  case True
  then show ?thesis by simp
next
  case False
  let ?d = "dropWhile (\<lambda>c. c \<in> set [SLASH]) (rev (strip s))"
  from False have ne: "?d \<noteq> []" by (simp add: prepared_def rstrip_chars_def)
  then have "\<not> hd ?d \<in> set [SLASH]" by (rule hd_dropWhile)
  moreover have "last (prepared s) = hd ?d"
    using ne by (simp add: prepared_def rstrip_chars_def last_rev)
  ultimately show ?thesis by simp
qed

lemma length_split_when: "length (split_when P s) = Suc (length (filter P s))"
  by (induction s) (auto split: list.splits simp: split_when_nonempty)

lemma last_split_when: "last (split_when P s) = [] \<longleftrightarrow> s = [] \<or> P (last s)"
proof (induction s)
  case Nil
  show ?case by simp
next
  case (Cons x xs)
  show ?case
  proof (cases "P x")
    case True
    with Cons show ?thesis by (simp add: split_when_nonempty)
  next
    case False
    obtain p ps where pp: "split_when P xs = p # ps"
      using split_when_nonempty [of P xs] by (cases "split_when P xs") auto
    show ?thesis
    proof (cases "ps = []")
      case True
      with pp length_split_when [of P xs] have "filter P xs = []" by simp
      then have "xs \<noteq> [] \<Longrightarrow> \<not> P (last xs)"
        by (metis filter_empty_conv last_in_set)
      with False True pp show ?thesis by auto
    next
      case ne: False
      then have "xs \<noteq> []" using pp by auto
      with False ne pp Cons show ?thesis by simp
    qed
  qed
qed

lemma last_sense_nonempty:
  assumes "well_formed line"
  shows "last (split_sep (english_part line) SLASH) \<noteq> []"
proof -
  from assms have sl: "SLASH \<in> set (prepared line)" by (simp add: well_formed_def)
  then have p: "prepared line =
      takeWhile (\<lambda>c. c \<noteq> SLASH) (prepared line) @ SLASH # english_part line"
    unfolding english_part_def by (rule split_at_first)
  from sl have "prepared line \<noteq> []" by auto
  with prepared_no_trailing_slash [of line] have "last (prepared line) \<noteq> SLASH" by simp
  with p have "last (SLASH # english_part line) \<noteq> SLASH"
    by (metis last_appendR list.distinct(1))
  then have "english_part line \<noteq> [] \<and> last (english_part line) \<noteq> SLASH"
    by (cases "english_part line") auto
  then show ?thesis
    unfolding split_sep_def using last_split_when [of "\<lambda>c. c = SLASH" "english_part line"] by simp
qed

lemma last_concat_map:
  assumes "xs \<noteq> []" and "\<And>x. f x \<noteq> []"
  shows "last (concat (map f xs)) = last (f (last xs))"
  using assms(1)
proof (induction xs rule: rev_induct)
  case Nil
  then show ?case by simp
next
  case (snoc x xs)
  show ?case using assms(2) [of x] by simp
qed

lemma last_last_split_when:
  "last (split_when P s) \<noteq> [] \<Longrightarrow> last (last (split_when P s)) = last s"
proof (induction s)
  case Nil
  then show ?case by simp
next
  case (Cons x xs)
  obtain p ps where pp: "split_when P xs = p # ps"
    using split_when_nonempty [of P xs] by (cases "split_when P xs") auto
  show ?case
  proof (cases "P x")
    case True
    with Cons.prems have ne: "last (split_when P xs) \<noteq> []"
      by (simp add: split_when_nonempty)
    then have "xs \<noteq> []" by auto
    with True ne Cons.IH show ?thesis by (simp add: split_when_nonempty)
  next
    case False
    show ?thesis
    proof (cases "ps = []")
      case True
      show ?thesis
      proof (cases "xs = []")
        case xe: True
        with False show ?thesis by simp
      next
        case xn: False
        from True pp length_split_when [of P xs] have "filter P xs = []" by simp
        with xn have "\<not> P (last xs)" by (metis filter_empty_conv last_in_set)
        with xn last_split_when [of P xs] have "last (split_when P xs) \<noteq> []" by simp
        with Cons.IH have "last (last (split_when P xs)) = last xs" by simp
        with True pp have "last p = last xs" by simp
        moreover from True pp xn have "p \<noteq> []" using \<open>last (split_when P xs) \<noteq> []\<close> by simp
        ultimately show ?thesis using False True pp xn by simp
      qed
    next
      case ne: False
      then have xn: "xs \<noteq> []" using pp by auto
      from False ne pp Cons.prems have "last (split_when P xs) \<noteq> []" by simp
      with Cons.IH have "last (last (split_when P xs)) = last xs" by simp
      with False ne pp xn show ?thesis by simp
    qed
  qed
qed

lemma last_definition_empty:
  assumes "well_formed line"
  shows "last (definitions (entry_of line)) = [] \<longleftrightarrow> last (prepared line) = SEMICOLON"
proof -
  let ?senses = "split_sep (english_part line) SLASH"
  from assms have sl: "SLASH \<in> set (prepared line)" by (simp add: well_formed_def)
  then have p: "prepared line =
      takeWhile (\<lambda>c. c \<noteq> SLASH) (prepared line) @ SLASH # english_part line"
    unfolding english_part_def by (rule split_at_first)
  have ls: "last ?senses \<noteq> []" using assms by (rule last_sense_nonempty)
  then have en: "english_part line \<noteq> []"
    unfolding split_sep_def using last_split_when [of "\<lambda>c. c = SLASH" "english_part line"] by auto
  have "last (prepared line) = last (SLASH # english_part line)"
    using p by (metis last_appendR list.distinct(1))
  with en have lp: "last (prepared line) = last (english_part line)" by simp
  have ll: "last (last ?senses) = last (english_part line)"
    using ls unfolding split_sep_def by (rule last_last_split_when)
  have "last (definitions (entry_of line)) = last (split_sep (last ?senses) SEMICOLON)"
    unfolding entry_of_def
    by (simp add: last_concat_map split_sep_def split_when_nonempty)
  then have "last (definitions (entry_of line)) = [] \<longleftrightarrow>
      last ?senses = [] \<or> last (last ?senses) = SEMICOLON"
    unfolding split_sep_def using last_split_when [of "\<lambda>c. c = SEMICOLON" "last (split_when (\<lambda>c. c = SLASH) (english_part line))"]
    by simp
  with ls ll lp show ?thesis by simp
qed

lemma startswith_append:
  "s \<noteq> [] \<Longrightarrow> startswith (s @ t) [c] \<longleftrightarrow> startswith s [c]"
  by (cases s) (simp_all add: startswith_def)

section \<open>Round trip of the sample line\<close>

text \<open>
  C5. Parsing the line \<open>U+611B U+7231 [ai4] /love/affection/\<close> gives the entry with
  traditional form U+611B, simplified form U+7231, pinyin \<open>ai4\<close> and the definitions
  \<open>love\<close>, \<open>affection\<close>, in this order; \<open>_parse_line\<close> returns it and leaves the object
  as it was.
\<close>

theorem parse_sample_line:
  "parse_line strptime self ([24859, 32, 29233] @ ascii '' [ai4] /love/affection/'') =
     Inr (Some \<lparr>traditional = [24859], simplified = [29233], pinyin = ascii ''ai4'',
                definitions = [ascii ''love'', ascii ''affection'']\<rparr>, self)"
  by (simp add: parse_line_def py_eval)

section \<open>Malformed lines\<close>

text \<open>
  C7. When the lines contain a line that is not a comment and that has no \<open>/\<close> at all,
  or whose headword segment (the text before the bracket, trimmed) does not split at
  whitespace into exactly two tokens, the constructor raises: its result is an error
  and no store.
\<close>

theorem malformed_line_aborts:
  assumes "line \<in> set lns" and "\<not> startswith line [HASH]"
    and "SLASH \<notin> set line \<or> length (split_ws (headwords line)) \<noteq> 2"
  shows "\<exists>err. init sp lns = Inl err"
proof -
  from assms(3) set_prepared [of line] have "\<not> well_formed line"
    by (auto simp: well_formed_def)
  then obtain err where "parse_entry line = Inl err"
    using parse_entry_ill_formed by blast
  with assms(2) have "\<And>self. \<exists>err. parse_line sp self line = Inl err"
    by (simp add: parse_line_data)
  with assms(1) show ?thesis
    unfolding init_def parse_file_def by (rule parse_loop_error)
qed

theorem malformed_line_aborts_witness:
  "(\<exists>err. init strptime_fail [ascii ''a b [c] /x/'', ascii ''a b c [d] /x/''] = Inl err) \<and>
   (\<exists>err. init strptime_fail [ascii ''a b [c] x''] = Inl err)"
proof -
  have 1: "ascii ''a b c [d] /x/'' \<in> set [ascii ''a b [c] /x/'', ascii ''a b c [d] /x/'']" by simp
  have 2: "\<not> startswith (ascii ''a b c [d] /x/'') [HASH]" by (simp add: py_eval)
  have 3: "length (split_ws (headwords (ascii ''a b c [d] /x/''))) \<noteq> 2"
    by (simp add: headwords_def chinese_part_def prepared_def py_eval)
  have 4: "ascii ''a b [c] x'' \<in> set [ascii ''a b [c] x'']" by simp
  have 5: "\<not> startswith (ascii ''a b [c] x'') [HASH]" by (simp add: py_eval)
  have 6: "SLASH \<notin> set (ascii ''a b [c] x'')" by (simp add: py_eval)
  show ?thesis
    using malformed_line_aborts [OF 1 2 disjI2, OF 3] malformed_line_aborts [OF 4 5 disjI1, OF 6]
    by blast
qed

section \<open>The pinyin bracket\<close>

text \<open>
  C3, as the claim states it, fails: on the line \<open>a b [cd /x/\<close> the pinyin segment
  \<open>cd\<close> does not end with \<open>]\<close>, and the parser returns an entry, with pinyin \<open>c\<close>.
\<close>

theorem pinyin_bracket_counterexample:
  "last (pinyin_segment (ascii ''a b [cd /x/'')) \<noteq> RBRACKET \<and>
   parse_line strptime_fail fresh (ascii ''a b [cd /x/'') =
     Inr (Some \<lparr>traditional = ascii ''a'', simplified = ascii ''b'', pinyin = ascii ''c'',
                definitions = [ascii ''x'']\<rparr>, fresh)"
  by (simp add: parse_line_def pinyin_segment_def chinese_part_def prepared_def py_eval)

text \<open>
  C3, amended. On every line that is not a comment and on which the three unpackings
  succeed, the parser returns an entry whose pinyin is the pinyin segment without its
  last character, whatever that character is: a segment that does not end with \<open>]\<close>
  raises no error.
\<close>

theorem pinyin_last_dropped:
  assumes "\<not> startswith line [HASH]" and "well_formed line"
  shows "\<exists>e. parse_line sp self line = Inr (Some e, self) \<and>
             pinyin e = butlast (pinyin_segment line)"
  using assms by (simp add: parse_line_data parse_entry_well_formed entry_of_def)

theorem pinyin_last_dropped_witness:
  "\<not> startswith (ascii ''a b [cd /x/'') [HASH] \<and> well_formed (ascii ''a b [cd /x/'') \<and>
   (\<exists>e. parse_line strptime_fail fresh (ascii ''a b [cd /x/'') = Inr (Some e, fresh) \<and>
        pinyin e = butlast (pinyin_segment (ascii ''a b [cd /x/'')))"
proof -
  have 1: "\<not> startswith (ascii ''a b [cd /x/'') [HASH]" by (simp add: py_eval)
  have 2: "well_formed (ascii ''a b [cd /x/'')"
    by (simp add: well_formed_def headwords_def chinese_part_def prepared_def py_eval)
  show ?thesis using 1 2 pinyin_last_dropped [OF 1 2] by blast
qed

section \<open>Senses and glosses\<close>

text \<open>
  C6. For every data line that parses, the text after the first \<open>/\<close> of the stripped
  line is the english part, and the definitions of the entry are the english part split
  at \<open>/\<close> into senses, each sense split at \<open>;\<close> into glosses, all glosses in source
  order; in particular the english part \<open>to love/to be fond of;to cherish\<close> gives the
  definitions \<open>to love\<close>, \<open>to be fond of\<close>, \<open>to cherish\<close>.
\<close>

theorem definitions_flattened:
  assumes "parse_line sp self line = Inr (Some e, self')"
  shows "prepared line = takeWhile (\<lambda>c. c \<noteq> SLASH) (prepared line) @ SLASH # english_part line \<and>
         definitions e =
           concat (map (\<lambda>sense. split_sep sense SEMICOLON) (split_sep (english_part line) SLASH)) \<and>
         (english_part line = ascii ''to love/to be fond of;to cherish'' \<longrightarrow>
            definitions e = [ascii ''to love'', ascii ''to be fond of'', ascii ''to cherish''])"
proof -
  from assms have "parse_entry line = Inr e" by (rule parse_line_Some)
  then have wf: "well_formed line" and e: "e = entry_of line"
    by (simp_all add: parse_entry_Inr_iff)
  from wf have "SLASH \<in> set (prepared line)" by (simp add: well_formed_def)
  then have 1: "prepared line =
      takeWhile (\<lambda>c. c \<noteq> SLASH) (prepared line) @ SLASH # english_part line"
    unfolding english_part_def by (rule split_at_first)
  have 2: "definitions e =
      concat (map (\<lambda>sense. split_sep sense SEMICOLON) (split_sep (english_part line) SLASH))"
    by (simp add: e entry_of_def)
  have 3: "concat (map (\<lambda>sense. split_sep sense SEMICOLON)
             (split_sep (ascii ''to love/to be fond of;to cherish'') SLASH)) =
           [ascii ''to love'', ascii ''to be fond of'', ascii ''to cherish'']"
    by (simp add: py_eval)
  from 1 2 3 show ?thesis by simp
qed

theorem definitions_flattened_witness:
  "english_part (ascii ''a b [c] /to love/to be fond of;to cherish/'') =
     ascii ''to love/to be fond of;to cherish'' \<and>
   parse_line strptime_fail fresh (ascii ''a b [c] /to love/to be fond of;to cherish/'') =
     Inr (Some \<lparr>traditional = ascii ''a'', simplified = ascii ''b'', pinyin = ascii ''c'',
                definitions = [ascii ''to love'', ascii ''to be fond of'', ascii ''to cherish'']\<rparr>,
          fresh) \<and>
   definitions \<lparr>traditional = ascii ''a'', simplified = ascii ''b'', pinyin = ascii ''c'',
                definitions = [ascii ''to love'', ascii ''to be fond of'', ascii ''to cherish'']\<rparr> =
     concat (map (\<lambda>sense. split_sep sense SEMICOLON)
       (split_sep (english_part (ascii ''a b [c] /to love/to be fond of;to cherish/'')) SLASH))"
proof -
  have 1: "parse_line strptime_fail fresh (ascii ''a b [c] /to love/to be fond of;to cherish/'') =
     Inr (Some \<lparr>traditional = ascii ''a'', simplified = ascii ''b'', pinyin = ascii ''c'',
                definitions = [ascii ''to love'', ascii ''to be fond of'', ascii ''to cherish'']\<rparr>,
          fresh)"
    by (simp add: parse_line_def py_eval)
  have 2: "english_part (ascii ''a b [c] /to love/to be fond of;to cherish/'') =
     ascii ''to love/to be fond of;to cherish''"
    by (simp add: english_part_def prepared_def py_eval)
  show ?thesis using 1 2 definitions_flattened [OF 1] by blast
qed

section \<open>Blank lines\<close>

text \<open>
  C9, as the claim states it, fails: on a line that is empty, or a newline, or spaces and
  a newline, the parser raises (the first unpacking finds one value) and returns no
  skip signal.
\<close>

theorem blank_line_counterexample:
  "parse_line strptime_fail fresh [10] = Inl (NotEnoughValues 1) \<and>
   parse_line strptime_fail fresh [] = Inl (NotEnoughValues 1) \<and>
   parse_line strptime_fail fresh (ascii ''  '' @ [10]) = Inl (NotEnoughValues 1)"
  by (simp add: parse_line_def py_eval)

text \<open>
  C9, amended. For every blank line (empty or whitespace only) the line parser raises
  the error of the first unpacking: it returns neither an entry nor the skip signal,
  and a build whose lines contain a blank line raises and gives no store.
\<close>

theorem blank_line_raises:
  assumes "\<forall>c\<in>set line. isspace c"
  shows "parse_line sp self line = Inl (NotEnoughValues 1) \<and>
         (line \<in> set lns \<longrightarrow> (\<exists>err. init sp lns = Inl err))"
proof -
  have nh: "\<not> isspace HASH" by (simp add: isspace_def HASH_def)
  have nc: "\<not> startswith line [HASH]"
  proof
    assume "startswith line [HASH]"
    then have "take 1 line = [HASH]" by (simp add: startswith_def)
    then have "HASH \<in> set line" by (metis in_set_takeD list.set_intros(1))
    with assms nh show False by blast
  qed
  have "parse_entry line = Inl (NotEnoughValues 1)"
    by (simp add: parse_entry_def strip_blank [OF assms] rstrip_chars_def split_sep1_def)
  with nc have 1: "\<And>self. parse_line sp self line = Inl (NotEnoughValues 1)"
    by (simp add: parse_line_data)
  have "line \<in> set lns \<Longrightarrow> \<exists>err. init sp lns = Inl err"
    unfolding init_def parse_file_def using 1 by (intro parse_loop_error [of line]) auto
  with 1 show ?thesis by blast
qed

theorem blank_line_raises_witness:
  "isspace 32 \<and> isspace 9 \<and> isspace 10 \<and>
   parse_line strptime_fail fresh [32, 9, 10] = Inl (NotEnoughValues 1) \<and>
   (\<exists>err. init strptime_fail [ascii ''a b [c] /x/'', [32, 9, 10]] = Inl err)"
proof -
  have 1: "\<forall>c\<in>set [32, 9, 10]. isspace c" by (simp add: isspace_def)
  have 2: "[32, 9, 10] \<in> set [ascii ''a b [c] /x/'', [32, 9, 10]]" by simp
  show ?thesis
    using 1 2 blank_line_raises [OF 1, of strptime_fail fresh "[ascii ''a b [c] /x/'', [32, 9, 10]]"]
    by simp
qed

section \<open>Comment lines\<close>

text \<open>
  C10. The comment test reads the raw line: the parser treats a line as a comment (it
  returns the skip signal, the timestamp possibly set, or fails on the timestamp)
  exactly when the first character of the line is \<open>#\<close>; every other line is parsed as
  a data line, and so is a line that starts with whitespace followed by \<open>#\<close>, as the line
  \<open> #a b [c] /x/\<close> with the traditional form \<open>#a\<close> shows.
\<close>

theorem comment_on_raw_line:
  "(((\<exists>self'. parse_line sp self line = Inr (None, self')) \<or>
       parse_line sp self line = Inl BadTimestamp) \<longleftrightarrow> (line \<noteq> [] \<and> hd line = HASH)) \<and>
   (\<not> (line \<noteq> [] \<and> hd line = HASH) \<longrightarrow>
      parse_line sp self line =
        (case parse_entry line of Inl err \<Rightarrow> Inl err | Inr e \<Rightarrow> Inr (Some e, self))) \<and>
   parse_line sp self (ascii '' #a b [c] /x/'') =
     Inr (Some \<lparr>traditional = ascii ''#a'', simplified = ascii ''b'', pinyin = ascii ''c'',
                definitions = [ascii ''x'']\<rparr>, self)"
proof -
  have sw: "startswith line [HASH] \<longleftrightarrow> line \<noteq> [] \<and> hd line = HASH"
    by (cases line) (auto simp: startswith_def)
  have a: "startswith line [HASH] \<Longrightarrow>
      (\<exists>self'. parse_line sp self line = Inr (None, self')) \<or>
       parse_line sp self line = Inl BadTimestamp"
    by (auto simp: parse_line_def split: option.splits)
  have b: "\<not> startswith line [HASH] \<Longrightarrow>
      \<not> ((\<exists>self'. parse_line sp self line = Inr (None, self')) \<or>
       parse_line sp self line = Inl BadTimestamp)"
    using parse_entry_error [of line BadTimestamp]
    by (auto simp: parse_line_data split: sum.splits)
  have c: "parse_line sp self (ascii '' #a b [c] /x/'') =
     Inr (Some \<lparr>traditional = ascii ''#a'', simplified = ascii ''b'', pinyin = ascii ''c'',
                definitions = [ascii ''x'']\<rparr>, self)"
    by (simp add: parse_line_def py_eval)
  from a b sw c show ?thesis
    using parse_line_data [of line sp self] by blast
qed

theorem comment_on_raw_line_witness:
  "\<not> (ascii '' # x'' \<noteq> [] \<and> hd (ascii '' # x'') = HASH) \<and>
   parse_line strptime_fail fresh (ascii '' # x'') = Inl (NotEnoughValues 1) \<and>
   parse_line strptime_fail fresh (ascii ''# x'') = Inr (None, fresh)"
proof -
  have 1: "\<not> (ascii '' # x'' \<noteq> [] \<and> hd (ascii '' # x'') = HASH)" by (simp add: HASH_def)
  have 2: "parse_entry (ascii '' # x'') = Inl (NotEnoughValues 1)" by (simp add: py_eval)
  have 3: "parse_line strptime_fail fresh (ascii ''# x'') = Inr (None, fresh)"
    by (simp add: parse_line_def DATE_TAG_def py_eval)
  from comment_on_raw_line [of strptime_fail fresh "ascii '' # x''"] 1
  have "parse_line strptime_fail fresh (ascii '' # x'') =
      (case parse_entry (ascii '' # x'') of Inl err \<Rightarrow> Inl err | Inr e \<Rightarrow> Inr (Some e, fresh))"
    by blast
  with 1 2 3 show ?thesis by simp
qed

section \<open>Lookup order\<close>

text \<open>
  C1, as the claim states it, fails: from the lines \<open>h a [p] /x/\<close> and \<open>b h [q] /y/\<close>
  the store holds the entry X with traditional form \<open>h\<close> and the entry Y with simplified
  form \<open>h\<close>, and \<open>get_entry\<close> on \<open>h\<close> returns Y, not X.
\<close>

theorem traditional_first_counterexample:
  "init strptime_fail [ascii ''h a [p] /x/'', ascii ''b h [q] /y/''] =
     Inr \<lparr>entries = [\<lparr>traditional = ascii ''h'', simplified = ascii ''a'', pinyin = ascii ''p'',
                       definitions = [ascii ''x'']\<rparr>,
                     \<lparr>traditional = ascii ''b'', simplified = ascii ''h'', pinyin = ascii ''q'',
                       definitions = [ascii ''y'']\<rparr>],
          simplified_to_index = [ascii ''a'' \<mapsto> 0, ascii ''h'' \<mapsto> 1],
          traditional_to_index = [ascii ''h'' \<mapsto> 0, ascii ''b'' \<mapsto> 1],
          data_datetime = None\<rparr> \<and>
   get_entry
     \<lparr>entries = [\<lparr>traditional = ascii ''h'', simplified = ascii ''a'', pinyin = ascii ''p'',
                   definitions = [ascii ''x'']\<rparr>,
                 \<lparr>traditional = ascii ''b'', simplified = ascii ''h'', pinyin = ascii ''q'',
                   definitions = [ascii ''y'']\<rparr>],
      simplified_to_index = [ascii ''a'' \<mapsto> 0, ascii ''h'' \<mapsto> 1],
      traditional_to_index = [ascii ''h'' \<mapsto> 0, ascii ''b'' \<mapsto> 1],
      data_datetime = None\<rparr> (ascii ''h'') \<noteq>
   Inr (Some \<lparr>traditional = ascii ''h'', simplified = ascii ''a'', pinyin = ascii ''p'',
              definitions = [ascii ''x'']\<rparr>)"
  by (simp add: init_def parse_file_def fresh_def parse_line_def get_entry_def getitem_def py_eval)

text \<open>
  C1, amended. For every store built from lines that contains an entry whose simplified
  form is \<open>h\<close>, \<open>get_entry\<close> checks the simplified index first and returns the last
  entry, in file order, whose simplified form is \<open>h\<close>: simplified wins over traditional,
  and an entry with traditional form \<open>h\<close> and another simplified form is not returned.
\<close>

theorem simplified_first:
  assumes "init sp lns = Inr self" and "y \<in> set (get_entries self)" and "simplified y = h"
  shows "get_entry self h = Inr (Some (last (filter (\<lambda>e. simplified e = h) (get_entries self)))) \<and>
         simplified (last (filter (\<lambda>e. simplified e = h) (get_entries self))) = h \<and>
         (\<forall>x. traditional x = h \<and> simplified x \<noteq> h \<longrightarrow> get_entry self h \<noteq> Inr (Some x))"
proof -
  let ?ys = "filter (\<lambda>e. simplified e = h) (entries self)"
  from assms(2,3) have ne: "?ys \<noteq> []"
    by (auto simp: get_entries_def filter_empty_conv)
  from init_index(1) [OF assms(1)]
  have "case simplified_to_index self h of
            None \<Rightarrow> ?ys = []
          | Some j \<Rightarrow> j < length (entries self) \<and> ?ys \<noteq> [] \<and> entries self ! j = last ?ys"
    by (simp add: index_last_def)
  with ne obtain j where j: "simplified_to_index self h = Some j" "j < length (entries self)"
    "entries self ! j = last ?ys"
    by (cases "simplified_to_index self h") auto
  then have 1: "get_entry self h = Inr (Some (last ?ys))"
    by (simp add: get_entry_def getitem_def)
  from ne have "last ?ys \<in> set ?ys" by (rule last_in_set)
  then have 2: "simplified (last ?ys) = h" by simp
  from 1 2 show ?thesis by (auto simp: get_entries_def)
qed

theorem simplified_first_witness:
  "init strptime_fail [ascii ''h a [p] /x/'', ascii ''b h [q] /y/''] =
     Inr \<lparr>entries = [\<lparr>traditional = ascii ''h'', simplified = ascii ''a'', pinyin = ascii ''p'',
                       definitions = [ascii ''x'']\<rparr>,
                     \<lparr>traditional = ascii ''b'', simplified = ascii ''h'', pinyin = ascii ''q'',
                       definitions = [ascii ''y'']\<rparr>],
          simplified_to_index = [ascii ''a'' \<mapsto> 0, ascii ''h'' \<mapsto> 1],
          traditional_to_index = [ascii ''h'' \<mapsto> 0, ascii ''b'' \<mapsto> 1],
          data_datetime = None\<rparr> \<and>
   get_entry
     \<lparr>entries = [\<lparr>traditional = ascii ''h'', simplified = ascii ''a'', pinyin = ascii ''p'',
                   definitions = [ascii ''x'']\<rparr>,
                 \<lparr>traditional = ascii ''b'', simplified = ascii ''h'', pinyin = ascii ''q'',
                   definitions = [ascii ''y'']\<rparr>],
      simplified_to_index = [ascii ''a'' \<mapsto> 0, ascii ''h'' \<mapsto> 1],
      traditional_to_index = [ascii ''h'' \<mapsto> 0, ascii ''b'' \<mapsto> 1],
      data_datetime = None\<rparr> (ascii ''h'') =
   Inr (Some \<lparr>traditional = ascii ''b'', simplified = ascii ''h'', pinyin = ascii ''q'',
              definitions = [ascii ''y'']\<rparr>)"
proof -
  let ?x = "\<lparr>traditional = ascii ''h'', simplified = ascii ''a'', pinyin = ascii ''p'',
                   definitions = [ascii ''x'']\<rparr>"
  let ?y = "\<lparr>traditional = ascii ''b'', simplified = ascii ''h'', pinyin = ascii ''q'',
                   definitions = [ascii ''y'']\<rparr>"
  let ?s = "\<lparr>entries = [?x, ?y],
      simplified_to_index = [ascii ''a'' \<mapsto> 0, ascii ''h'' \<mapsto> 1],
      traditional_to_index = [ascii ''h'' \<mapsto> 0, ascii ''b'' \<mapsto> 1],
      data_datetime = None\<rparr>"
  have 1: "init strptime_fail [ascii ''h a [p] /x/'', ascii ''b h [q] /y/''] = Inr ?s"
    by (simp add: init_def parse_file_def fresh_def parse_line_def py_eval)
  have 2: "?y \<in> set (get_entries ?s)" by (simp add: get_entries_def)
  have 3: "simplified ?y = ascii ''h''" by simp
  from simplified_first [OF 1 2 3]
  have "get_entry ?s (ascii ''h'') =
      Inr (Some (last (filter (\<lambda>e. simplified e = ascii ''h'') (get_entries ?s))))"
    by blast
  with 1 show ?thesis by (simp add: get_entries_def)
qed

section \<open>Age of the data without a date line\<close>

text \<open>
  C8. For every store built from lines none of which starts with the date tag
  \<open>#! date=\<close>, \<open>get_data_days_old\<close> fails with the error "Data datetime is not set":
  it returns no number, whatever the clock says.
\<close>

theorem no_date_line_no_age:
  assumes "init sp lns = Inr self" and "\<forall>line\<in>set lns. \<not> startswith line DATE_TAG"
  shows "get_data_days_old utcnow self = Inl DatetimeNotSet \<and>
         (\<forall>n. get_data_days_old utcnow self \<noteq> Inr n)"
proof -
  from assms have "data_datetime self = None"
    unfolding init_def parse_file_def
    using parse_loop_no_date [of lns sp _ 0 self] by (simp add: fresh_def)
  then show ?thesis by (simp add: get_data_days_old_def)
qed

theorem no_date_line_no_age_witness:
  "init strptime_fail [ascii ''# comment'', ascii ''a b [c] /x/''] =
     Inr \<lparr>entries = [\<lparr>traditional = ascii ''a'', simplified = ascii ''b'', pinyin = ascii ''c'',
                       definitions = [ascii ''x'']\<rparr>],
          simplified_to_index = [ascii ''b'' \<mapsto> 0],
          traditional_to_index = [ascii ''a'' \<mapsto> 0],
          data_datetime = None\<rparr> \<and>
   \<not> startswith (ascii ''# comment'') DATE_TAG \<and>
   \<not> startswith (ascii ''a b [c] /x/'') DATE_TAG \<and>
   get_data_days_old 0
     \<lparr>entries = [\<lparr>traditional = ascii ''a'', simplified = ascii ''b'', pinyin = ascii ''c'',
                       definitions = [ascii ''x'']\<rparr>],
          simplified_to_index = [ascii ''b'' \<mapsto> 0],
          traditional_to_index = [ascii ''a'' \<mapsto> 0],
          data_datetime = None\<rparr> = Inl DatetimeNotSet"
proof -
  have 1: "init strptime_fail [ascii ''# comment'', ascii ''a b [c] /x/''] =
     Inr \<lparr>entries = [\<lparr>traditional = ascii ''a'', simplified = ascii ''b'', pinyin = ascii ''c'',
                       definitions = [ascii ''x'']\<rparr>],
          simplified_to_index = [ascii ''b'' \<mapsto> 0],
          traditional_to_index = [ascii ''a'' \<mapsto> 0],
          data_datetime = None\<rparr>"
    by (simp add: init_def parse_file_def fresh_def parse_line_def DATE_TAG_def py_eval)
  have 2: "\<forall>line\<in>set [ascii ''# comment'', ascii ''a b [c] /x/'']. \<not> startswith line DATE_TAG"
    by (simp add: DATE_TAG_def py_eval)
  show ?thesis using 1 2 no_date_line_no_age [OF 1 2, of 0] by simp
qed

section \<open>Two lines with one simplified form\<close>

text \<open>
  C4. Building from two data lines that parse to entries with the same simplified form
  and different traditional forms gives a store whose simplified index maps that form
  to position 1, the position of the second entry, and whose \<open>get_entries\<close> holds both
  entries in file order.
\<close>

theorem later_simplified_wins:
  assumes "\<not> startswith l1 [HASH]" and "parse_entry l1 = Inr e1"
    and "\<not> startswith l2 [HASH]" and "parse_entry l2 = Inr e2"
    and "simplified e2 = simplified e1" and "traditional e2 \<noteq> traditional e1"
  shows "\<exists>self. init sp [l1, l2] = Inr self \<and>
           simplified_to_index self (simplified e1) = Some 1 \<and>
           getitem (get_entries self) 1 = Inr e2 \<and>
           get_entries self = [e1, e2]"
  using assms
  by (simp add: init_def parse_file_def fresh_def parse_line_data get_entries_def getitem_def)

theorem later_simplified_wins_witness:
  "\<exists>self. init strptime_fail [ascii ''t1 s [p] /x/'', ascii ''t2 s [q] /y/''] = Inr self \<and>
      simplified_to_index self (ascii ''s'') = Some 1 \<and>
      getitem (get_entries self) 1 =
        Inr \<lparr>traditional = ascii ''t2'', simplified = ascii ''s'', pinyin = ascii ''q'',
             definitions = [ascii ''y'']\<rparr> \<and>
      get_entries self =
        [\<lparr>traditional = ascii ''t1'', simplified = ascii ''s'', pinyin = ascii ''p'',
           definitions = [ascii ''x'']\<rparr>,
         \<lparr>traditional = ascii ''t2'', simplified = ascii ''s'', pinyin = ascii ''q'',
           definitions = [ascii ''y'']\<rparr>]"
proof -
  let ?e1 = "\<lparr>traditional = ascii ''t1'', simplified = ascii ''s'', pinyin = ascii ''p'',
           definitions = [ascii ''x'']\<rparr>"
  let ?e2 = "\<lparr>traditional = ascii ''t2'', simplified = ascii ''s'', pinyin = ascii ''q'',
           definitions = [ascii ''y'']\<rparr>"
  have 1: "\<not> startswith (ascii ''t1 s [p] /x/'') [HASH]" by (simp add: py_eval)
  have 2: "parse_entry (ascii ''t1 s [p] /x/'') = Inr ?e1" by (simp add: py_eval)
  have 3: "\<not> startswith (ascii ''t2 s [q] /y/'') [HASH]" by (simp add: py_eval)
  have 4: "parse_entry (ascii ''t2 s [q] /y/'') = Inr ?e2" by (simp add: py_eval)
  have 5: "simplified ?e2 = simplified ?e1" by simp
  have 6: "traditional ?e2 \<noteq> traditional ?e1" by simp
  from later_simplified_wins [OF 1 2 3 4 5 6, of strptime_fail]
  show ?thesis by simp
qed

section \<open>Trailing slashes\<close>

text \<open>
  C2, as the claim states it, fails: on the line \<open>a b [c] /x//\<close> both trailing slashes
  are removed before the split, and the definitions are \<open>x\<close> alone, with no empty
  definition after it.
\<close>

theorem trailing_slash_counterexample:
  "prepared (ascii ''a b [c] /x//'') = ascii ''a b [c] /x'' \<and>
   parse_line strptime_fail fresh (ascii ''a b [c] /x//'') =
     Inr (Some \<lparr>traditional = ascii ''a'', simplified = ascii ''b'', pinyin = ascii ''c'',
                definitions = [ascii ''x'']\<rparr>, fresh)"
  by (simp add: parse_line_def prepared_def py_eval)

text \<open>
  C2, amended. For every line that is not a comment, the parser first trims leading and
  trailing whitespace and then removes every trailing \<open>/\<close> (not at most one), before any
  split. With \<open>p\<close> the line after these two steps: a line whose \<open>p\<close> has no \<open>/\<close> raises
  (one value to unpack), and the definitions of a returned entry are the glosses of the
  senses of the text after the first \<open>/\<close> of \<open>p\<close>. In particular a data line whose text
  ends in \<open>//\<close> keeps no empty sense for its trailing slashes: a line that ends in one or
  more \<open>/\<close>, then whitespace, parses exactly as the same line with a single trailing
  \<open>/\<close>; the last sense of a parsed line is never empty, and its last definition is empty
  exactly when \<open>p\<close> ends in \<open>;\<close>.
\<close>

theorem trailing_slashes_all_stripped:
  "(\<not> startswith line [HASH] \<and> SLASH \<notin> set (rstrip_chars (strip line) [SLASH]) \<longrightarrow>
      parse_line sp self line = Inl (NotEnoughValues 1)) \<and>
   (parse_line sp self line = Inr (Some e, self') \<longrightarrow>
      definitions e =
        concat (map (\<lambda>sense. split_sep sense SEMICOLON)
          (split_sep (tl (dropWhile (\<lambda>c. c \<noteq> SLASH) (rstrip_chars (strip line) [SLASH]))) SLASH)) \<and>
      last (split_sep (tl (dropWhile (\<lambda>c. c \<noteq> SLASH) (rstrip_chars (strip line) [SLASH]))) SLASH)
        \<noteq> [] \<and>
      (last (definitions e) = [] \<longleftrightarrow> last (rstrip_chars (strip line) [SLASH]) = SEMICOLON)) \<and>
   (\<not> startswith (s @ replicate (Suc n) SLASH @ w) [HASH] \<and> (\<forall>c\<in>set w. isspace c) \<longrightarrow>
      parse_line sp self (s @ replicate (Suc n) SLASH @ w) = parse_line sp self (s @ [SLASH]))"
proof -
  have 1: "parse_line sp self line = Inl (NotEnoughValues 1)"
    if "\<not> startswith line [HASH]" and "SLASH \<notin> set (rstrip_chars (strip line) [SLASH])"
    using that by (simp add: parse_line_data parse_entry_def split_sep1_def)
  have 2: "definitions e =
        concat (map (\<lambda>sense. split_sep sense SEMICOLON)
          (split_sep (tl (dropWhile (\<lambda>c. c \<noteq> SLASH) (rstrip_chars (strip line) [SLASH]))) SLASH)) \<and>
      last (split_sep (tl (dropWhile (\<lambda>c. c \<noteq> SLASH) (rstrip_chars (strip line) [SLASH]))) SLASH)
        \<noteq> [] \<and>
      (last (definitions e) = [] \<longleftrightarrow> last (rstrip_chars (strip line) [SLASH]) = SEMICOLON)"
    if "parse_line sp self line = Inr (Some e, self')"
  proof -
    from that have "parse_entry line = Inr e" by (rule parse_line_Some)
    then have wf: "well_formed line" and e: "e = entry_of line"
      by (simp_all add: parse_entry_Inr_iff)
    have "definitions e = concat (map (\<lambda>sense. split_sep sense SEMICOLON)
          (split_sep (english_part line) SLASH))"
      by (simp add: e entry_of_def)
    moreover have "last (split_sep (english_part line) SLASH) \<noteq> []"
      using wf by (rule last_sense_nonempty)
    moreover have "last (definitions e) = [] \<longleftrightarrow> last (prepared line) = SEMICOLON"
      unfolding e using wf by (rule last_definition_empty)
    ultimately show ?thesis by (simp add: english_part_def prepared_def)
  qed
  have 3: "parse_line sp self (s @ replicate (Suc n) SLASH @ w) = parse_line sp self (s @ [SLASH])"
    if nc: "\<not> startswith (s @ replicate (Suc n) SLASH @ w) [HASH]" and ws: "\<forall>c\<in>set w. isspace c"
  proof -
    have eq: "s @ replicate (Suc n) SLASH @ w = (s @ [SLASH]) @ replicate n SLASH @ w"
      by (simp add: replicate_append_same)
    have "s @ [SLASH] = [] \<or> \<not> isspace (last (s @ [SLASH]))"
      using not_isspace_SLASH by simp
    from prepared_trailing [OF this ws, of n]
    have p: "prepared (s @ replicate (Suc n) SLASH @ w) = prepared (s @ [SLASH])"
      unfolding eq .
    have "startswith ((s @ [SLASH]) @ replicate n SLASH @ w) [HASH] \<longleftrightarrow> startswith (s @ [SLASH]) [HASH]"
      by (rule startswith_append) simp
    with nc have nc': "\<not> startswith (s @ [SLASH]) [HASH]" unfolding eq by simp
    show ?thesis
      unfolding parse_line_data [OF nc] parse_line_data [OF nc'] parse_entry_prepared [OF p] ..
  qed
  from 1 2 3 show ?thesis by blast
qed

theorem trailing_slashes_all_stripped_witness:
  "\<not> startswith (ascii ''a b [c]//'') [HASH] \<and>
   SLASH \<notin> set (rstrip_chars (strip (ascii ''a b [c]//'')) [SLASH]) \<and>
   parse_line strptime_fail fresh (ascii ''a b [c]//'') = Inl (NotEnoughValues 1) \<and>
   \<not> startswith (ascii ''a b [c] /x/ '' @ replicate (Suc 1) SLASH @ [10]) [HASH] \<and>
   isspace 10 \<and>
   parse_line strptime_fail fresh (ascii ''a b [c] /x/ '' @ replicate (Suc 1) SLASH @ [10]) =
     Inr (Some \<lparr>traditional = ascii ''a'', simplified = ascii ''b'', pinyin = ascii ''c'',
                definitions = [ascii ''x'', ascii '' '']\<rparr>, fresh) \<and>
   last (rstrip_chars (strip (ascii ''a b [c] /x/ '' @ replicate (Suc 1) SLASH @ [10])) [SLASH])
     \<noteq> SEMICOLON"
proof -
  let ?l1 = "ascii ''a b [c]//''"
  let ?s = "ascii ''a b [c] /x/ ''"
  let ?l2 = "?s @ replicate (Suc 1) SLASH @ [10]"
  let ?e = "\<lparr>traditional = ascii ''a'', simplified = ascii ''b'', pinyin = ascii ''c'',
                definitions = [ascii ''x'', ascii '' '']\<rparr>"
  have 1: "\<not> startswith ?l1 [HASH]" by (simp add: py_eval)
  have 2: "SLASH \<notin> set (rstrip_chars (strip ?l1) [SLASH])" by (simp add: py_eval)
  have 3: "\<not> startswith ?l2 [HASH]" by (simp add: py_eval)
  have 4: "\<forall>c\<in>set [10]. isspace c" by (simp add: isspace_def)
  have 5: "parse_line strptime_fail fresh (?s @ [SLASH]) = Inr (Some ?e, fresh)"
    by (simp add: parse_line_def py_eval)
  note t = trailing_slashes_all_stripped
    [where sp = strptime_fail and self = fresh and line = ?l1 and s = ?s and n = 1 and w = "[10]"]
  from t 1 2 have 6: "parse_line strptime_fail fresh ?l1 = Inl (NotEnoughValues 1)" by blast
  from t 3 4 5 have 7: "parse_line strptime_fail fresh ?l2 = Inr (Some ?e, fresh)" by simp
  from trailing_slashes_all_stripped
    [where sp = strptime_fail and self = fresh and line = ?l2 and e = ?e and self' = fresh] 7
  have "last (definitions ?e) = [] \<longleftrightarrow> last (rstrip_chars (strip ?l2) [SLASH]) = SEMICOLON"
    by blast
  then have 8: "last (rstrip_chars (strip ?l2) [SLASH]) \<noteq> SEMICOLON" by simp
  from 1 2 3 4 6 7 8 show ?thesis by simp
qed

end
